theory Spec2Isabelle
  imports Main "HOL-Library.Multiset" "HOL-Library.Word"
begin

section \<open>TextAnalyzer.cpp: word frequencies of a stemmed document\<close>

text \<open>
  The program is one function, \<open>freqSorter\<close>, called by \<open>main\<close> once for each
  command-line argument. It reads whitespace-delimited stems from a file, counts them in
  an \<open>unordered_map<string, int>\<close>, sorts the entries with \<open>std::sort\<close> and
  \<open>pairCompare\<close>, and writes a report.

  Conventions of the embedding:
  \<^item> The C++ \<open>int\<close> is 32 bits wide. The counters \<open>totalWordCount\<close> and
    \<open>stemHash[stem]\<close> are modelled by \<open>int\<close> with the wrap-around of \<open>++\<close> written out
    (\<open>wrap32\<close>): signed overflow is undefined in C++, and the compiled program wraps in
    two's complement. The loop indices \<open>i\<close> are natural numbers: the first loop stops
    below 50, and the second stays within \<open>int\<close> while \<open>uniqueWordCount\<close> has fewer than
    \<open>2^31\<close> elements.
  \<^item> The \<open>unordered_map\<close> is an association list with distinct keys, kept in the order
    of first insertion. The order in which the C++ container is iterated is not
    specified: it is any permutation of the entries (\<open>iteration\<close>).
  \<^item> \<open>std::sort\<close> is not stable and its algorithm is not fixed by the language; it is
    modelled by its postcondition (\<open>std_sort\<close>).
  \<^item> The quotient \<open>stemFreq[i].second / twc\<close> is a \<open>float\<close> division. The model keeps
    its two operands (\<open>Quot\<close>) and does not round or print them.
\<close>

subsection \<open>The counting pass\<close>

type_synonym entry = "string \<times> int"

record counter_state =
  uniqueWordCount :: "int list"
  totalWordCount :: int
  stemHash :: "entry list"

text \<open>
  The value a 32-bit \<open>int\<close> holds after an arithmetic result \<open>x\<close> is stored in it: \<open>x\<close>
  itself from \<open>-2^31\<close> to \<open>2^31 - 1\<close>, and \<open>x\<close> shifted by a multiple of \<open>2^32\<close> into that
  range otherwise.
\<close>

definition wrap32 :: "int \<Rightarrow> int" where
  "wrap32 x = (x + 2 ^ 31) mod 2 ^ 32 - 2 ^ 31"

text \<open>The locals of \<open>freqSorter\<close> as declared: an empty vector, 0, an empty map.\<close>

definition init :: counter_state where
  "init = \<lparr>uniqueWordCount = [], totalWordCount = 0, stemHash = []\<rparr>"

text \<open>\<open>stemHash.find(stem)\<close>; \<open>None\<close> stands for \<open>stemHash.end()\<close>.\<close>

definition find_stem :: "entry list \<Rightarrow> string \<Rightarrow> int option" where
  "find_stem h stem = map_of h stem"

text \<open>\<open>stemHash[stem]\<close>: a missing key is inserted with the value-initialised count 0.\<close>

definition subscript :: "entry list \<Rightarrow> string \<Rightarrow> entry list" where
  "subscript h stem = (if find_stem h stem = None then h @ [(stem, 0)] else h)"

text \<open>\<open>++\<close> applied to the count stored under the key.\<close>

definition increment :: "entry list \<Rightarrow> string \<Rightarrow> entry list" where
  "increment h stem =
     map (\<lambda>e. if fst e = stem then (fst e, wrap32 (snd e + 1)) else e) h"

text \<open>The body of the \<open>while (fileIn >> stem)\<close> loop, for one extracted stem.\<close>

definition count_step :: "counter_state \<Rightarrow> string \<Rightarrow> counter_state" where
  "count_step s stem =
     (let twc = wrap32 (totalWordCount s + 1);
          uwc = (if find_stem (stemHash s) stem = None
                 then uniqueWordCount s @ [twc] else uniqueWordCount s);
          h = increment (subscript (stemHash s) stem) stem
      in \<lparr>uniqueWordCount = uwc, totalWordCount = twc, stemHash = h\<rparr>)"

text \<open>The whole loop over the stems the stream delivers, in order.\<close>

definition counting :: "string list \<Rightarrow> counter_state" where
  "counting stems = foldl count_step init stems"

subsection \<open>Reading stems from the stream\<close>

text \<open>\<open>isspace\<close> in the "C" locale: space, \<open>\t\<close>, \<open>\n\<close>, \<open>\v\<close>, \<open>\f\<close>, \<open>\r\<close>.\<close>

definition isspace :: "char \<Rightarrow> bool" where
  "isspace c = (c = CHR '' '' \<or> c = CHR 0x09 \<or> c = CHR 0x0A \<or> c = CHR 0x0B
                \<or> c = CHR 0x0C \<or> c = CHR 0x0D)"

text \<open>
  \<open>fileIn >> stem\<close> on the rest of the stream: leading whitespace is skipped, then the
  characters up to the next whitespace (or the end) are the stem. With nothing left after
  the whitespace the extraction fails (\<open>None\<close>) and the loop ends.
\<close>

definition extract_stem :: "string \<Rightarrow> (string \<times> string) option" where
  "extract_stem inp =
     (let rest = dropWhile isspace inp
      in if rest = [] then None
         else Some (takeWhile (\<lambda>c. \<not> isspace c) rest, dropWhile (\<lambda>c. \<not> isspace c) rest))"

lemma extract_stem_shorter:
  "extract_stem inp = Some (stem, rest) \<Longrightarrow> length rest < length inp"
proof -
  assume a: "extract_stem inp = Some (stem, rest)"
  define r where "r = dropWhile isspace inp"
  from a have ne: "r \<noteq> []" and rest: "rest = dropWhile (\<lambda>c. \<not> isspace c) r"
    by (auto simp: extract_stem_def r_def Let_def split: if_splits)
  from ne have "\<not> isspace (hd r)"
    unfolding r_def by (metis hd_dropWhile)
  with ne have "length rest < length r"
    unfolding rest by (cases r) (auto intro: le_imp_less_Suc length_dropWhile_le)
  moreover have "length r \<le> length inp"
    unfolding r_def by (rule length_dropWhile_le)
  ultimately show ?thesis by simp
qed

function tokens :: "string \<Rightarrow> string list" where
  "tokens inp =
     (case extract_stem inp of
        None \<Rightarrow> []
      | Some (stem, rest) \<Rightarrow> stem # tokens rest)"
  by pat_completeness auto
termination
  by (relation "measure length") (auto dest: extract_stem_shorter)

declare tokens.simps [simp del]

subsection \<open>The ranker\<close>

text \<open>\<open>pairCompare\<close>: the comparator handed to \<open>std::sort\<close>.\<close>

definition pairCompare :: "entry \<Rightarrow> entry \<Rightarrow> bool" where
  "pairCompare a b = (snd a > snd b)"

text \<open>
  \<open>vector<pair<string, int>> stemFreq(stemHash.begin(), stemHash.end())\<close>: the vector
  holds the entries of the map, each once, in the container's iteration order.
\<close>

definition iteration :: "entry list \<Rightarrow> entry list \<Rightarrow> bool" where
  "iteration h v = (mset v = mset h)"

text \<open>
  \<open>std::sort(first, last, comp)\<close> by its postcondition: the range holds the same
  elements, and no later element compares before an earlier one.
\<close>

definition std_sort :: "('a \<Rightarrow> 'a \<Rightarrow> bool) \<Rightarrow> 'a list \<Rightarrow> 'a list \<Rightarrow> bool" where
  "std_sort cmp v v' = (mset v' = mset v \<and> sorted_wrt (\<lambda>x y. \<not> cmp y x) v')"

subsection \<open>The report\<close>

text \<open>
  \<open>Quot n d\<close> is the \<open>float\<close> division of the \<open>int\<close> \<open>n\<close> by \<open>twc\<close>, the \<open>float\<close>
  made from the \<open>int\<close> \<open>d\<close>; it divides by zero exactly when \<open>d = 0\<close>.
\<close>

datatype quotient = Quot int int

fun divides_by_zero :: "quotient \<Rightarrow> bool" where
  "divides_by_zero (Quot n d) = (d = 0)"

text \<open>
  A line of the output file, before numbers are printed: literal text, a row of the ranked
  table (stem, frequency, rank, probability) or a row of the second table (position,
  ordinal).
\<close>

datatype line =
    is_Text: Text string
  | is_Ranked: Ranked string int int quotient
  | is_Unique: Unique int int

definition quoted :: "string \<Rightarrow> string" where
  "quoted s = [CHR 0x22] @ s @ [CHR 0x22]"

definition header1 :: string where
  "header1 = quoted ''Stem'' @ '', '' @ quoted ''Frequency'' @ '', '' @ quoted ''Rank''
             @ '', '' @ quoted ''Probability''"

definition header2 :: string where
  "header2 = quoted ''Total World Count'' @ '', '' @ quoted ''Unique World Count''"

text \<open>\<open>for (int i = 0; i < stemFreq.size() && i < 50; i++)\<close>, from index \<open>i\<close> on.\<close>

function ranked_loop :: "nat \<Rightarrow> entry list \<Rightarrow> int \<Rightarrow> line list" where
  "ranked_loop i stemFreq twc =
     (if i < length stemFreq \<and> i < 50
      then Ranked (fst (stemFreq ! i)) (snd (stemFreq ! i)) (int i + 1)
             (Quot (snd (stemFreq ! i)) twc)
           # ranked_loop (i + 1) stemFreq twc
      else [])"
  by pat_completeness auto
termination
  by (relation "measure (\<lambda>(i, stemFreq, twc). 50 - i)") auto

declare ranked_loop.simps [simp del]

text \<open>\<open>for (int i = 0; i < uniqueWordCount.size(); i++)\<close>, from index \<open>i\<close> on.\<close>

function unique_loop :: "nat \<Rightarrow> int list \<Rightarrow> line list" where
  "unique_loop i uwc =
     (if i < length uwc
      then Unique (uwc ! i) (int i + 1) # unique_loop (i + 1) uwc
      else [])"
  by pat_completeness auto
termination
  by (relation "measure (\<lambda>(i, uwc). length uwc - i)") auto

declare unique_loop.simps [simp del]

text \<open>
  Everything written to \<open>fileOut\<close>, line by line: the first header, the ranked rows, an
  empty line, the second header, the rows of unique-word positions.
\<close>

definition report :: "entry list \<Rightarrow> counter_state \<Rightarrow> line list" where
  "report stemFreq s =
     [Text header1] @ ranked_loop 0 stemFreq (totalWordCount s)
     @ [Text [], Text header2] @ unique_loop 0 (uniqueWordCount s)"

text \<open>Whether writing a line evaluates a quotient whose divisor is zero.\<close>

fun zero_division :: "line \<Rightarrow> bool" where
  "zero_division (Ranked st f r q) = divides_by_zero q"
| "zero_division (Text t) = False"
| "zero_division (Unique p n) = False"

subsection \<open>The name of the output file\<close>

text \<open>
  \<open>s.substr(pos, n)\<close> for \<open>pos\<close> within the string (the program only calls it with
  \<open>pos = 0\<close>, so \<open>out_of_range\<close> is never thrown): at most \<open>n\<close> characters from \<open>pos\<close>.
\<close>

definition substr :: "string \<Rightarrow> nat \<Rightarrow> nat \<Rightarrow> string" where
  "substr s pos n = take n (drop pos s)"

text \<open>
  \<open>fileName.substr(0, fileName.size() - 4) + "_Output.csv"\<close>. The subtraction is in
  \<open>size_t\<close>, taken as 64 bits wide: for a name shorter than 4 characters it wraps around.
\<close>

definition fileOutput :: "string \<Rightarrow> string" where
  "fileOutput fileName =
     substr fileName 0 (unat (word_of_nat (length fileName) - (4 :: 64 word)))
     @ ''_Output.csv''"

subsection \<open>Files, \<open>freqSorter\<close> and \<open>main\<close>\<close>

text \<open>
  The file system maps a path to the text of the file. An \<open>ifstream\<close> on a path that
  cannot be opened is in a failed state and delivers no stem, as an empty file does.
  The output stream is taken to open; how \<open>operator<<\<close> prints the numbers of a line is
  the parameter \<open>render\<close>.
\<close>

type_synonym files = "string \<rightharpoonup> string"

definition read_file :: "files \<Rightarrow> string \<Rightarrow> string" where
  "read_file fs fileName = (case fs fileName of None \<Rightarrow> [] | Some contents \<Rightarrow> contents)"

text \<open>
  \<open>freqSorter(fileName)\<close>: from the file system \<open>fs\<close> it writes the lines \<open>out\<close> and
  leaves the file system \<open>fs'\<close>. It is a relation because the iteration order of the map
  and the order \<open>std::sort\<close> gives to equal frequencies are not determined.
\<close>

inductive freqSorter ::
  "(line list \<Rightarrow> string) \<Rightarrow> string \<Rightarrow> files \<Rightarrow> line list \<Rightarrow> files \<Rightarrow> bool"
  for render :: "line list \<Rightarrow> string" where
  run: "s = counting (tokens (read_file fs fileName)) \<Longrightarrow>
        iteration (stemHash s) v \<Longrightarrow>
        std_sort pairCompare v stemFreq \<Longrightarrow>
        out = report stemFreq s \<Longrightarrow>
        freqSorter render fileName fs out (fs(fileOutput fileName \<mapsto> render out))"



text \<open>
  The specification's words for the driver, to compare \<open>main\<close> with: the pipeline
  \<open>freqSorter\<close> is run on each argument of a list, in the order of the list, each run
  starting from the file system the run before it left.
\<close>

inductive pipeline ::
  "(line list \<Rightarrow> string) \<Rightarrow> string list \<Rightarrow> files \<Rightarrow>
   (string \<times> line list) list \<Rightarrow> files \<Rightarrow> bool"
  for render :: "line list \<Rightarrow> string" where
  none: "pipeline render [] fs [] fs"
| next_file: "freqSorter render a fs out fs' \<Longrightarrow>
              pipeline render args fs' outs fs'' \<Longrightarrow>
              pipeline render (a # args) fs ((fileOutput a, out) # outs) fs''"

text \<open>\<open>out\<close> is a report that the pipeline can write for a file with these contents, taken
  alone.\<close>

definition report_of :: "string \<Rightarrow> line list \<Rightarrow> bool" where
  "report_of contents out =
     (\<exists>v stemFreq. iteration (stemHash (counting (tokens contents))) v \<and>
        std_sort pairCompare v stemFreq \<and>
        out = report stemFreq (counting (tokens contents)))"

subsection \<open>Facts about the counting pass\<close>

lemma find_stem_None: "find_stem h k = None \<longleftrightarrow> k \<notin> set (map fst h)"
  by (simp add: find_stem_def map_of_eq_None_iff)

lemma keys_increment: "map fst (increment h k) = map fst h"
  by (induction h) (auto simp: increment_def)

lemma increment_absent: "k \<notin> set (map fst h) \<Longrightarrow> increment h k = h"
  by (induction h) (auto simp: increment_def)

lemma increment_append: "increment (h @ g) k = increment h k @ increment g k"
  by (simp add: increment_def)

lemma wrap32_id: "- (2 ^ 31) \<le> x \<Longrightarrow> x < 2 ^ 31 \<Longrightarrow> wrap32 x = x"
  by (simp add: wrap32_def)

lemma wrap32_add_left: "wrap32 (wrap32 x + y) = wrap32 (x + y)"
proof -
  have "(wrap32 x + y + 2 ^ 31) mod 2 ^ 32 = ((x + 2 ^ 31) mod 2 ^ 32 + y) mod 2 ^ 32"
    by (simp add: wrap32_def)
  also have "\<dots> = (x + 2 ^ 31 + y) mod 2 ^ 32"
    by (rule mod_add_left_eq)
  also have "\<dots> = (x + y + 2 ^ 31) mod 2 ^ 32"
    by (simp add: ac_simps)
  finally show ?thesis by (simp add: wrap32_def)
qed

lemma step_new:
  "stem \<notin> set (map fst (stemHash s)) \<Longrightarrow>
   count_step s stem =
     \<lparr>uniqueWordCount = uniqueWordCount s @ [wrap32 (totalWordCount s + 1)],
      totalWordCount = wrap32 (totalWordCount s + 1),
      stemHash = stemHash s @ [(stem, 1)]\<rparr>"
  by (simp add: count_step_def Let_def find_stem_None subscript_def increment_append
      increment_absent) (simp add: increment_def wrap32_def)

lemma step_old:
  "stem \<in> set (map fst (stemHash s)) \<Longrightarrow>
   count_step s stem = \<lparr>uniqueWordCount = uniqueWordCount s,
                         totalWordCount = wrap32 (totalWordCount s + 1),
                         stemHash = increment (stemHash s) stem\<rparr>"
  by (simp add: count_step_def Let_def find_stem_None subscript_def)

lemma counting_Nil: "counting [] = init"
  by (simp add: counting_def)

lemma counting_snoc: "counting (stems @ [stem]) = count_step (counting stems) stem"
  by (simp add: counting_def)

text \<open>The total is the number of stems read, as a 32-bit \<open>int\<close> holds it.\<close>

lemma total_counting: "totalWordCount (counting stems) = wrap32 (int (length stems))"
proof (induction stems rule: rev_induct)
  case Nil
  then show ?case by (simp add: counting_Nil init_def wrap32_def)
next
  case (snoc stem stems)
  have "totalWordCount (counting (stems @ [stem])) = wrap32 (totalWordCount (counting stems) + 1)"
    by (simp add: counting_snoc count_step_def Let_def)
  also have "\<dots> = wrap32 (int (length stems) + 1)"
    by (simp only: snoc wrap32_add_left)
  finally show ?case by (simp add: add.commute)
qed

lemma keys_counting:
  "distinct (map fst (stemHash (counting stems))) \<and>
   set (map fst (stemHash (counting stems))) = set stems"
proof (induction stems rule: rev_induct)
  case Nil
  then show ?case by (simp add: counting_Nil init_def)
next
  case (snoc stem stems)
  show ?case
  proof (cases "stem \<in> set (map fst (stemHash (counting stems)))")
    case True
    then show ?thesis
      using snoc by (auto simp: counting_snoc step_old keys_increment)
  next
    case False
    then show ?thesis
      using snoc by (auto simp: counting_snoc step_new)
  qed
qed

lemma length_unique:
  "length (uniqueWordCount (counting stems)) = length (stemHash (counting stems))"
proof (induction stems rule: rev_induct)
  case Nil
  then show ?case by (simp add: counting_Nil init_def)
next
  case (snoc stem stems)
  show ?case
  proof (cases "stem \<in> set (map fst (stemHash (counting stems)))")
    case True
    then show ?thesis
      using snoc by (simp add: counting_snoc step_old increment_def)
  next
    case False
    then show ?thesis
      using snoc by (simp add: counting_snoc step_new)
  qed
qed

lemma length_table: "length (stemHash (counting stems)) = card (set stems)"
proof -
  let ?ks = "map fst (stemHash (counting stems))"
  have d: "distinct ?ks" and e: "set ?ks = set stems"
    using keys_counting[of stems] by simp_all
  have "card (set stems) = card (set ?ks)" by (simp only: e)
  also have "\<dots> = length ?ks" using d by (rule distinct_card)
  finally show ?thesis by simp
qed

text \<open>Each stored count is the number of occurrences of its stem, as a 32-bit \<open>int\<close>
  holds it.\<close>

lemma counts_counting:
  "e \<in> set (stemHash (counting stems)) \<Longrightarrow>
   snd e = wrap32 (int (count_list stems (fst e)))"
proof (induction stems arbitrary: e rule: rev_induct)
  case Nil
  then show ?case by (simp add: counting_Nil init_def)
next
  case (snoc stem stems)
  show ?case
  proof (cases "stem \<in> set (map fst (stemHash (counting stems)))")
    case True
    with snoc.prems
    have "e \<in> (\<lambda>e. if fst e = stem then (fst e, wrap32 (snd e + 1)) else e)
                ` set (stemHash (counting stems))"
      by (simp add: counting_snoc step_old increment_def)
    then obtain e' where m: "e' \<in> set (stemHash (counting stems))"
      and e: "e = (if fst e' = stem then (fst e', wrap32 (snd e' + 1)) else e')"
      by blast
    from m have c: "snd e' = wrap32 (int (count_list stems (fst e')))"
      by (rule snoc.IH)
    show ?thesis
    proof (cases "fst e' = stem")
      case True
      with e have "fst e = stem" and "snd e = wrap32 (snd e' + 1)" by simp_all
      with c True have "snd e = wrap32 (int (count_list stems stem) + 1)"
        by (simp add: wrap32_add_left)
      with \<open>fst e = stem\<close> show ?thesis by (simp add: add.commute)
    next
      case False
      with e c show ?thesis by simp
    qed
  next
    case False
    then have n: "stem \<notin> set stems"
      using keys_counting[of stems] by simp
    from False snoc.prems
    have "e \<in> set (stemHash (counting stems)) \<or> e = (stem, 1)"
      by (auto simp: counting_snoc step_new)
    then show ?thesis
    proof
      assume m: "e \<in> set (stemHash (counting stems))"
      then have "fst e \<in> set stems"
        using keys_counting[of stems] by force
      with n have "fst e \<noteq> stem" by blast
      with snoc.IH[OF m] show ?thesis by simp
    next
      assume "e = (stem, 1)"
      with n show ?thesis by (simp add: wrap32_def)
    qed
  qed
qed

subsection \<open>The counting pass on fewer than \<open>2^31\<close> stems\<close>

lemma total_bounded:
  "length stems < 2 ^ 31 \<Longrightarrow> totalWordCount (counting stems) = int (length stems)"
  by (simp add: total_counting wrap32_id)

lemma counts_bounded:
  assumes "length stems < 2 ^ 31" and "e \<in> set (stemHash (counting stems))"
  shows "snd e = int (count_list stems (fst e))"
proof -
  have "count_list stems (fst e) \<le> length stems" by (rule count_le_length)
  with assms(1) have "int (count_list stems (fst e)) < 2 ^ 31" by simp
  then have "wrap32 (int (count_list stems (fst e))) = int (count_list stems (fst e))"
    by (simp add: wrap32_id)
  with counts_counting[OF assms(2)] show ?thesis by simp
qed

lemma sum_bounded:
  assumes "length stems < 2 ^ 31"
  shows "sum_list (map snd (stemHash (counting stems))) = int (length stems)"
proof -
  let ?h = "stemHash (counting stems)"
  have d: "distinct (map fst ?h)" and k: "set (map fst ?h) = set stems"
    using keys_counting[of stems] by simp_all
  have m: "map snd ?h = map (\<lambda>e. int (count_list stems (fst e))) ?h"
    by (rule map_cong[OF refl]) (rule counts_bounded[OF assms])
  have "sum_list (map snd ?h) = sum_list (map (\<lambda>e. int (count_list stems (fst e))) ?h)"
    by (simp only: m)
  also have "\<dots> = sum_list (map (\<lambda>k. int (count_list stems k)) (map fst ?h))"
    by (simp add: comp_def)
  also have "\<dots> = (\<Sum>k \<in> set (map fst ?h). int (count_list stems k))"
    using d by (rule sum_list_distinct_conv_sum_set)
  also have "\<dots> = int (\<Sum>k \<in> set stems. count_list stems k)"
    by (simp only: k of_nat_sum)
  also have "\<dots> = int (length stems)"
    by (simp add: sum_count_set)
  finally show ?thesis .
qed

lemma unique_positions:
  "length stems < 2 ^ 31 \<Longrightarrow>
   sorted_wrt (<) (uniqueWordCount (counting stems)) \<and>
   (\<forall>p \<in> set (uniqueWordCount (counting stems)). 1 \<le> p \<and> p \<le> int (length stems))"
proof (induction stems rule: rev_induct)
  case Nil
  then show ?case by (simp add: counting_Nil init_def)
next
  case (snoc stem stems)
  then have b: "length stems < 2 ^ 31" and b': "int (length stems) + 1 < 2 ^ 31" by simp_all
  have t: "totalWordCount (counting stems) = int (length stems)"
    using b by (rule total_bounded)
  have w: "wrap32 (int (length stems) + 1) = int (length stems) + 1"
    using b' by (simp add: wrap32_id)
  show ?case
  proof (cases "stem \<in> set (map fst (stemHash (counting stems)))")
    case True
    then show ?thesis
      using snoc.IH[OF b] by (auto simp: counting_snoc step_old)
  next
    case False
    then show ?thesis
      using snoc.IH[OF b] by (auto simp: counting_snoc step_new t w sorted_wrt_append)
  qed
qed

lemma first_position:
  "stems \<noteq> [] \<Longrightarrow> \<exists>ps. uniqueWordCount (counting stems) = 1 # ps"
proof (induction stems rule: rev_induct)
  case Nil
  then show ?case by simp
next
  case (snoc stem stems)
  show ?case
  proof (cases "stems = []")
    case True
    then show ?thesis
      using counting_snoc[of "[]" stem]
      by (simp add: counting_Nil step_new init_def wrap32_def)
  next
    case False
    then obtain ps where "uniqueWordCount (counting stems) = 1 # ps"
      using snoc.IH by blast
    then show ?thesis
      by (cases "stem \<in> set (map fst (stemHash (counting stems)))")
         (simp_all add: counting_snoc step_old step_new)
  qed
qed

subsection \<open>The counting pass on a run of one stem\<close>

text \<open>Reading \<open>n\<close> times a stem that has not occurred before.\<close>

lemma counting_run_Suc:
  "b \<notin> set xs \<Longrightarrow>
   counting (xs @ replicate (Suc m) b) =
     \<lparr>uniqueWordCount =
        uniqueWordCount (counting xs) @ [wrap32 (totalWordCount (counting xs) + 1)],
      totalWordCount = wrap32 (totalWordCount (counting xs) + int (Suc m)),
      stemHash = stemHash (counting xs) @ [(b, wrap32 (int (Suc m)))]\<rparr>"
proof (induction m)
  case 0
  then have "b \<notin> set (map fst (stemHash (counting xs)))"
    using keys_counting[of xs] by simp
  then show ?case
    using counting_snoc[of xs b] by (simp add: step_new wrap32_def)
next
  case (Suc m)
  define ys where "ys = xs @ replicate (Suc m) b"
  define T where "T = totalWordCount (counting xs)"
  from Suc.prems have n: "b \<notin> set (map fst (stemHash (counting xs)))"
    using keys_counting[of xs] by simp
  have r: "xs @ replicate (Suc (Suc m)) b = ys @ [b]"
    unfolding ys_def by (simp add: replicate_append_same)
  have s: "counting ys =
     \<lparr>uniqueWordCount = uniqueWordCount (counting xs) @ [wrap32 (T + 1)],
      totalWordCount = wrap32 (T + int (Suc m)),
      stemHash = stemHash (counting xs) @ [(b, wrap32 (int (Suc m)))]\<rparr>"
    unfolding ys_def T_def using Suc.prems by (rule Suc.IH)
  then have "b \<in> set (map fst (stemHash (counting ys)))" by simp
  then have step: "count_step (counting ys) b =
     \<lparr>uniqueWordCount = uniqueWordCount (counting ys),
      totalWordCount = wrap32 (totalWordCount (counting ys) + 1),
      stemHash = increment (stemHash (counting ys)) b\<rparr>"
    by (rule step_old)
  have u: "uniqueWordCount (counting ys) = uniqueWordCount (counting xs) @ [wrap32 (T + 1)]"
    by (simp add: s)
  have "wrap32 (totalWordCount (counting ys) + 1) = wrap32 (wrap32 (T + int (Suc m)) + 1)"
    by (simp add: s)
  also have "\<dots> = wrap32 (T + int (Suc m) + 1)"
    by (rule wrap32_add_left)
  also have "\<dots> = wrap32 (T + int (Suc (Suc m)))"
    by (simp add: ac_simps)
  finally have t: "wrap32 (totalWordCount (counting ys) + 1) = wrap32 (T + int (Suc (Suc m)))" .
  have "increment (stemHash (counting ys)) b
        = increment (stemHash (counting xs)) b @ increment [(b, wrap32 (int (Suc m)))] b"
    by (simp add: s increment_append)
  also have "increment (stemHash (counting xs)) b = stemHash (counting xs)"
    using n by (rule increment_absent)
  also have "increment [(b, wrap32 (int (Suc m)))] b = [(b, wrap32 (wrap32 (int (Suc m)) + 1))]"
    by (simp add: increment_def)
  also have "wrap32 (wrap32 (int (Suc m)) + 1) = wrap32 (int (Suc m) + 1)"
    by (rule wrap32_add_left)
  also have "int (Suc m) + 1 = int (Suc (Suc m))"
    by simp
  finally have h: "increment (stemHash (counting ys)) b
        = stemHash (counting xs) @ [(b, wrap32 (int (Suc (Suc m))))]" .
  have "counting (ys @ [b]) =
     \<lparr>uniqueWordCount = uniqueWordCount (counting xs) @ [wrap32 (T + 1)],
      totalWordCount = wrap32 (T + int (Suc (Suc m))),
      stemHash = stemHash (counting xs) @ [(b, wrap32 (int (Suc (Suc m))))]\<rparr>"
    by (simp only: counting_snoc step u t h)
  then show ?case
    unfolding r T_def .
qed

lemma counting_run:
  assumes "b \<notin> set xs" and "0 < n"
  shows "counting (xs @ replicate n b) =
     \<lparr>uniqueWordCount =
        uniqueWordCount (counting xs) @ [wrap32 (totalWordCount (counting xs) + 1)],
      totalWordCount = wrap32 (totalWordCount (counting xs) + int n),
      stemHash = stemHash (counting xs) @ [(b, wrap32 (int n))]\<rparr>"
proof -
  from assms(2) obtain m where "n = Suc m" by (cases n) auto
  with counting_run_Suc[OF assms(1), of m] show ?thesis by simp
qed

text \<open>\<open>2^32 - 1 = 4294967295\<close> times one stem, then another stem once.\<close>

lemma counting_many_a_b:
  "counting (replicate 4294967295 ''a'' @ [''b'']) =
     \<lparr>uniqueWordCount = [1, 0], totalWordCount = 0,
      stemHash = [(''a'', - 1), (''b'', 1)]\<rparr>"
proof -
  define n :: nat where "n = 4294967295"
  have n: "0 < n" "int n = 4294967295" by (simp_all add: n_def)
  have a: "counting (replicate n ''a'') =
             \<lparr>uniqueWordCount = [1], totalWordCount = - 1, stemHash = [(''a'', - 1)]\<rparr>"
    using counting_run[of "''a''" "[]" n] n
    by (simp add: counting_Nil init_def wrap32_def)
  have "counting (replicate n ''a'' @ [''b'']) =
     \<lparr>uniqueWordCount = [1, 0], totalWordCount = 0,
      stemHash = [(''a'', - 1), (''b'', 1)]\<rparr>"
    using counting_run[of "''b''" "replicate n ''a''" 1]
    by (simp add: a wrap32_def)
  then show ?thesis unfolding n_def .
qed

subsection \<open>Facts about the ranker and the report\<close>

lemma ranked_loop_eq:
  "ranked_loop i stemFreq twc =
   map (\<lambda>j. Ranked (fst (stemFreq ! j)) (snd (stemFreq ! j)) (int j + 1)
              (Quot (snd (stemFreq ! j)) twc))
       [i ..< min (length stemFreq) 50]"
proof (induction i stemFreq twc rule: ranked_loop.induct)
  case (1 i stemFreq twc)
  show ?case
  proof (cases "i < length stemFreq \<and> i < 50")
    case True
    then have "[i ..< min (length stemFreq) 50] = i # [i + 1 ..< min (length stemFreq) 50]"
      by (simp add: upt_conv_Cons)
    with True "1.IH" show ?thesis
      by (subst ranked_loop.simps) simp
  next
    case False
    then have "[i ..< min (length stemFreq) 50] = []" by auto
    with False show ?thesis
      by (subst ranked_loop.simps) auto
  qed
qed

lemma unique_loop_eq:
  "unique_loop i uwc = map (\<lambda>j. Unique (uwc ! j) (int j + 1)) [i ..< length uwc]"
proof (induction i uwc rule: unique_loop.induct)
  case (1 i uwc)
  show ?case
  proof (cases "i < length uwc")
    case True
    then have "[i ..< length uwc] = i # [i + 1 ..< length uwc]"
      by (simp add: upt_conv_Cons)
    with True "1.IH" show ?thesis
      by (subst unique_loop.simps) simp
  next
    case False
    with False show ?thesis
      by (subst unique_loop.simps) simp
  qed
qed

lemma length_ranked_loop: "length (ranked_loop 0 stemFreq twc) = min (length stemFreq) 50"
  by (simp add: ranked_loop_eq)

lemma ranked_rows_of_report:
  "filter is_Ranked (report stemFreq s) = ranked_loop 0 stemFreq (totalWordCount s)"
  by (simp add: report_def ranked_loop_eq unique_loop_eq filter_map comp_def)

lemma ranking_length:
  "iteration h v \<Longrightarrow> std_sort cmp v stemFreq \<Longrightarrow> length stemFreq = length h"
  by (metis iteration_def std_sort_def size_mset)

lemma ranking_descending:
  assumes "std_sort pairCompare v stemFreq" and "i \<le> j" and "j < length stemFreq"
  shows "snd (stemFreq ! j) \<le> snd (stemFreq ! i)"
proof (cases "i = j")
  case True
  then show ?thesis by simp
next
  case False
  with assms have "i < j" by simp
  moreover from assms have "sorted_wrt (\<lambda>x y. \<not> pairCompare y x) stemFreq"
    by (simp add: std_sort_def)
  ultimately have "\<not> pairCompare (stemFreq ! j) (stemFreq ! i)"
    using assms(3) by (simp add: sorted_wrt_iff_nth_less)
  then show ?thesis by (simp add: pairCompare_def)
qed

lemma ranking_exists:
  "iteration h h \<and> std_sort pairCompare h (rev (sort_key snd h))"
proof -
  have "sorted (map snd (sort_key snd h))" by (rule sorted_sort_key)
  then have "sorted_wrt (\<lambda>x y. snd x \<le> snd y) (sort_key snd h)"
    by (simp add: sorted_map)
  then have "sorted_wrt (\<lambda>x y. \<not> pairCompare y x) (rev (sort_key snd h))"
    by (simp add: sorted_wrt_rev pairCompare_def not_less)
  then show ?thesis by (simp add: iteration_def std_sort_def)
qed

lemma two_entries:
  assumes "mset xs = {#p, q#}"
  shows "xs = [p, q] \<or> xs = [q, p]"
proof -
  from assms have "length xs = 2"
    by (metis size_mset size_add_mset size_empty numeral_2_eq_2)
  then obtain x y where xs: "xs = [x, y]"
    by (auto simp: length_Suc_conv numeral_2_eq_2)
  with assms show ?thesis
    by (auto simp: add_eq_conv_ex)
qed

lemma counting_aab:
  "counting [''a'', ''a'', ''b''] =
   \<lparr>uniqueWordCount = [1, 3], totalWordCount = 3, stemHash = [(''a'', 2), (''b'', 1)]\<rparr>"
  by (simp add: counting_def count_step_def init_def find_stem_def subscript_def
      increment_def Let_def wrap32_def)

lemma ranking_aab:
  assumes "iteration [(''a'', 2), (''b'', 1)] v" and "std_sort pairCompare v stemFreq"
  shows "stemFreq = [(''a'', 2), (''b'', 1)]"
proof -
  from assms have "mset stemFreq = {#(''a'', 2), (''b'', 1)#}"
    by (simp add: iteration_def std_sort_def)
  then have "stemFreq = [(''a'', 2), (''b'', 1)] \<or> stemFreq = [(''b'', 1), (''a'', 2)]"
    by (rule two_entries)
  moreover have "\<not> sorted_wrt (\<lambda>x y. \<not> pairCompare y x) [(''b'', 1), (''a'', 2)]"
    by (simp add: pairCompare_def)
  ultimately show ?thesis using assms(2) by (auto simp: std_sort_def)
qed

lemma tokens_blank: "\<forall>c \<in> set contents. isspace c \<Longrightarrow> tokens contents = []"
proof -
  assume "\<forall>c \<in> set contents. isspace c"
  then have "dropWhile isspace contents = []" by simp
  then have "extract_stem contents = None" by (simp add: extract_stem_def)
  then show ?thesis by (subst tokens.simps) simp
qed

lemma tokens_clean:
  "t \<in> set (tokens inp) \<Longrightarrow> t \<noteq> [] \<and> (\<forall>c \<in> set t. \<not> isspace c)"
proof (induction inp arbitrary: t rule: tokens.induct)
  case (1 inp)
  show ?case
  proof (cases "extract_stem inp")
    case None
    with "1.prems" show ?thesis by (subst (asm) tokens.simps) simp
  next
    case (Some p)
    obtain stem rest where p: "p = (stem, rest)" by (cases p)
    from Some p have ts: "tokens inp = stem # tokens rest"
      by (subst tokens.simps) simp
    define r where "r = dropWhile isspace inp"
    from Some p have ne: "r \<noteq> []" and stem: "stem = takeWhile (\<lambda>c. \<not> isspace c) r"
      by (auto simp: extract_stem_def r_def Let_def split: if_splits)
    from ne have "\<not> isspace (hd r)" unfolding r_def by (metis hd_dropWhile)
    with ne have "stem \<noteq> []" unfolding stem by (cases r) auto
    moreover have "\<forall>c \<in> set stem. \<not> isspace c"
      unfolding stem by (auto dest: set_takeWhileD)
    ultimately show ?thesis
      using "1.prems" "1.IH"[OF Some p[symmetric]] ts by auto
  qed
qed

lemma ranking_empty:
  "iteration [] v \<Longrightarrow> std_sort cmp v stemFreq \<Longrightarrow> stemFreq = []"
  by (simp add: iteration_def std_sort_def)

text \<open>The report divides by zero exactly when it has a ranked row and the total is 0.\<close>

lemma zero_division_report:
  "list_ex zero_division (report stemFreq s) \<longleftrightarrow> stemFreq \<noteq> [] \<and> totalWordCount s = 0"
proof -
  have "list_ex zero_division (ranked_loop 0 stemFreq twc) \<longleftrightarrow> stemFreq \<noteq> [] \<and> twc = 0"
    for twc
    by (auto simp: ranked_loop_eq list_ex_iff)
  moreover have "\<not> list_ex zero_division (unique_loop 0 uwc)" for uwc
    by (simp add: unique_loop_eq list_ex_iff)
  ultimately show ?thesis
    by (simp add: report_def)
qed

lemma wrap32_not_zero:
  assumes "0 < n" and "n < 2 ^ 32"
  shows "wrap32 (int n) \<noteq> 0"
proof (cases "n < 2 ^ 31")
  case True
  then have "wrap32 (int n) = int n" by (simp add: wrap32_id)
  with assms(1) show ?thesis by simp
next
  case False
  then have lo: "0 \<le> int n + 2 ^ 31 - 2 ^ 32" by simp
  from assms(2) have hi: "int n + 2 ^ 31 - 2 ^ 32 < 2 ^ 32" by simp
  have "(int n + 2 ^ 31) mod 2 ^ 32 = (int n + 2 ^ 31 - 2 ^ 32) mod 2 ^ 32"
    by (simp only: minus_mod_self2)
  also have "\<dots> = int n + 2 ^ 31 - 2 ^ 32"
    using lo hi by (rule mod_pos_pos_trivial)
  finally have "wrap32 (int n) = int n - 2 ^ 32" by (simp add: wrap32_def)
  with assms(2) show ?thesis by simp
qed

text \<open>
  On fewer than \<open>2^32\<close> stems, the empty input included, no division by zero is reached:
  with no stem there is no ranked row, and otherwise the total has not wrapped to 0.
\<close>

lemma no_zero_division_below_wrap:
  assumes "length stems < 2 ^ 32"
    and "iteration (stemHash (counting stems)) v" and "std_sort pairCompare v stemFreq"
  shows "\<not> list_ex zero_division (report stemFreq (counting stems))"
proof (cases "stems = []")
  case True
  with assms have "stemFreq = []"
    using ranking_empty by (simp add: counting_Nil init_def)
  then show ?thesis by (simp add: zero_division_report)
next
  case False
  with assms(1) have "totalWordCount (counting stems) \<noteq> 0"
    by (simp add: total_counting wrap32_not_zero)
  then show ?thesis by (simp add: zero_division_report)
qed

subsection \<open>Facts about file names and the driver\<close>

lemma size_minus_four:
  assumes "4 \<le> n" and "n < 2 ^ 64"
  shows "unat (word_of_nat n - (4 :: 64 word)) = n - 4"
proof -
  have u: "unat (word_of_nat n :: 64 word) = n"
    using assms(2) by (simp add: unat_of_nat)
  have "(4 :: 64 word) \<le> word_of_nat n"
    using assms u by (simp add: word_le_nat_alt)
  then have "unat (word_of_nat n - (4 :: 64 word)) = unat (word_of_nat n :: 64 word) - unat (4 :: 64 word)"
    by (rule unat_sub)
  with u show ?thesis by simp
qed

lemma size_minus_four_wraps:
  assumes "n < 4"
  shows "n \<le> unat (word_of_nat n - (4 :: 64 word))"
proof -
  from assms have "n = 0 \<or> n = 1 \<or> n = 2 \<or> n = 3" by arith
  then show ?thesis by (auto simp: unsigned_minus_1_eq_mask mask_eq_exp_minus_1)
qed

lemma short_name: "length fileName < 4 \<Longrightarrow> fileOutput fileName = fileName @ ''_Output.csv''"
  using size_minus_four_wraps[of "length fileName"] by (simp add: fileOutput_def substr_def)

lemma fileOutput_long:
  assumes "4 \<le> length fileName" and "length fileName < 2 ^ 64"
  shows "fileOutput fileName = take (length fileName - 4) fileName @ ''_Output.csv''"
  using size_minus_four[OF assms] by (simp add: fileOutput_def substr_def)




lemma freqSorter_report:
  "freqSorter render fileName fs out fs' \<Longrightarrow>
   report_of (read_file fs fileName) out \<and> fs' = fs(fileOutput fileName \<mapsto> render out)"
  by (auto simp: report_of_def elim!: freqSorter.cases)





lemma pipeline_untouched:
  "pipeline render args fs outs fs' \<Longrightarrow> p \<notin> fileOutput ` set args \<Longrightarrow> fs' p = fs p"
proof (induction rule: pipeline.induct)
  case (none fs)
  then show ?case by simp
next
  case (next_file a fs out fs' args outs fs'')
  from next_file.hyps(1) have "fs' = fs(fileOutput a \<mapsto> render out)"
    by (simp add: freqSorter_report)
  with next_file show ?case by auto
qed



subsection \<open>The counting invariants\<close>

text \<open>
  C1, as the specification states it, is about every input; it fails where the 32-bit
  \<open>totalWordCount\<close> overflows. After \<open>2^30\<close> times \<open>a\<close> and \<open>2^30\<close> times \<open>b\<close> the
  two counts are \<open>2^30\<close> each, with the sum \<open>2^31\<close>, and \<open>totalWordCount\<close> has wrapped
  to \<open>-2^31\<close>.
\<close>

theorem frequencies_sum_overflow_counterexample:
  "sum_list (map snd (stemHash (counting (replicate (2 ^ 30) ''a'' @ replicate (2 ^ 30) ''b''))))
     = 2147483648 \<and>
   totalWordCount (counting (replicate (2 ^ 30) ''a'' @ replicate (2 ^ 30) ''b''))
     = - 2147483648 \<and>
   sum_list (map snd (stemHash (counting (replicate (2 ^ 30) ''a'' @ replicate (2 ^ 30) ''b''))))
     \<noteq> totalWordCount (counting (replicate (2 ^ 30) ''a'' @ replicate (2 ^ 30) ''b''))"
proof -
  define n :: nat where "n = 2 ^ 30"
  have n: "0 < n" "int n = 1073741824" by (simp_all add: n_def)
  have a: "counting (replicate n ''a'') =
             \<lparr>uniqueWordCount = [1], totalWordCount = 1073741824,
              stemHash = [(''a'', 1073741824)]\<rparr>"
    using counting_run[of "''a''" "[]" n] n
    by (simp add: counting_Nil init_def wrap32_def)
  have "counting (replicate n ''a'' @ replicate n ''b'') =
             \<lparr>uniqueWordCount = [1, 1073741825], totalWordCount = - 2147483648,
              stemHash = [(''a'', 1073741824), (''b'', 1073741824)]\<rparr>"
    using counting_run[of "''b''" "replicate n ''a''" n] n
    by (simp add: a wrap32_def)
  then have "sum_list (map snd (stemHash (counting (replicate n ''a'' @ replicate n ''b''))))
       = 2147483648 \<and>
     totalWordCount (counting (replicate n ''a'' @ replicate n ''b'')) = - 2147483648 \<and>
     sum_list (map snd (stemHash (counting (replicate n ''a'' @ replicate n ''b''))))
       \<noteq> totalWordCount (counting (replicate n ''a'' @ replicate n ''b''))"
    by simp
  then show ?thesis unfolding n_def .
qed

text \<open>
  C1, amended. For every sequence of fewer than \<open>2^31\<close> stems, once the counting loop is
  over, the counts stored in the frequency table add up to \<open>totalWordCount\<close>.
\<close>

theorem frequencies_sum_to_total:
  "length stems < 2 ^ 31 \<Longrightarrow>
   sum_list (map snd (stemHash (counting stems))) = totalWordCount (counting stems)"
  by (simp add: sum_bounded total_bounded)

theorem frequencies_sum_to_total_witness:
  "length [''a'', ''a'', ''b''] < 2 ^ 31 \<and>
   sum_list (map snd (stemHash (counting [''a'', ''a'', ''b'']))) = 3 \<and>
   totalWordCount (counting [''a'', ''a'', ''b'']) = 3"
proof -
  have h: "length [''a'', ''a'', ''b''] < 2 ^ 31" by simp
  from frequencies_sum_to_total[OF h] h show ?thesis
    by (simp add: total_bounded)
qed

text \<open>
  C2. For every sequence of stems, \<open>uniqueWordCount\<close> has one element for each distinct
  stem of the input, and the distinct stems are exactly the keys of the frequency table
  (each key stored once).
\<close>

theorem unique_positions_count_distinct:
  "length (uniqueWordCount (counting stems)) = card (set stems) \<and>
   length (stemHash (counting stems)) = card (set stems) \<and>
   fst ` set (stemHash (counting stems)) = set stems \<and>
   distinct (map fst (stemHash (counting stems)))"
  using keys_counting[of stems] by (simp add: length_unique length_table)

text \<open>
  C10, as the specification states it, is about every input; it fails where the 32-bit
  \<open>totalWordCount\<close> overflows. After \<open>2^31\<close> times \<open>a\<close> it has wrapped to \<open>-2^31\<close>,
  and the position pushed for a following \<open>b\<close> is negative: the list is not increasing
  and its second element is below 1.
\<close>

theorem unique_positions_overflow_counterexample:
  "uniqueWordCount (counting (replicate (2 ^ 31) ''a'' @ [''b''])) = [1, - 2147483647] \<and>
   totalWordCount (counting (replicate (2 ^ 31) ''a'' @ [''b''])) = - 2147483647 \<and>
   stemHash (counting (replicate (2 ^ 31) ''a'' @ [''b'']))
     = [(''a'', - 2147483648), (''b'', 1)] \<and>
   \<not> sorted_wrt (<) (uniqueWordCount (counting (replicate (2 ^ 31) ''a'' @ [''b''])))"
proof -
  define n :: nat where "n = 2 ^ 31"
  have n: "0 < n" "int n = 2147483648" by (simp_all add: n_def)
  have a: "counting (replicate n ''a'') =
             \<lparr>uniqueWordCount = [1], totalWordCount = - 2147483648,
              stemHash = [(''a'', - 2147483648)]\<rparr>"
    using counting_run[of "''a''" "[]" n] n
    by (simp add: counting_Nil init_def wrap32_def)
  have "counting (replicate n ''a'' @ [''b'']) =
             \<lparr>uniqueWordCount = [1, - 2147483647], totalWordCount = - 2147483647,
              stemHash = [(''a'', - 2147483648), (''b'', 1)]\<rparr>"
    using counting_run[of "''b''" "replicate n ''a''" 1]
    by (simp add: a wrap32_def)
  then have "uniqueWordCount (counting (replicate n ''a'' @ [''b''])) = [1, - 2147483647] \<and>
     totalWordCount (counting (replicate n ''a'' @ [''b''])) = - 2147483647 \<and>
     stemHash (counting (replicate n ''a'' @ [''b'']))
       = [(''a'', - 2147483648), (''b'', 1)] \<and>
     \<not> sorted_wrt (<) (uniqueWordCount (counting (replicate n ''a'' @ [''b''])))"
    by simp
  then show ?thesis unfolding n_def .
qed

text \<open>
  C10, amended. For every sequence of fewer than \<open>2^31\<close> stems, \<open>uniqueWordCount\<close> is
  strictly increasing; if it is not empty its first element is 1; and each element lies
  between 1 and the final \<open>totalWordCount\<close>.
\<close>

theorem unique_positions_increasing:
  assumes "length stems < 2 ^ 31"
  shows "sorted_wrt (<) (uniqueWordCount (counting stems)) \<and>
   (uniqueWordCount (counting stems) \<noteq> [] \<longrightarrow> hd (uniqueWordCount (counting stems)) = 1) \<and>
   (\<forall>p \<in> set (uniqueWordCount (counting stems)).
      1 \<le> p \<and> p \<le> totalWordCount (counting stems))"
proof -
  have "hd (uniqueWordCount (counting stems)) = 1"
    if "uniqueWordCount (counting stems) \<noteq> []"
  proof -
    from that have "stems \<noteq> []"
      by (auto simp: counting_Nil init_def)
    then obtain ps where "uniqueWordCount (counting stems) = 1 # ps"
      using first_position by blast
    then show ?thesis by simp
  qed
  then show ?thesis
    using unique_positions[OF assms] total_bounded[OF assms] by simp
qed

theorem unique_positions_increasing_witness:
  "length [''a'', ''a'', ''b'', ''a'', ''c''] < 2 ^ 31 \<and>
   uniqueWordCount (counting [''a'', ''a'', ''b'', ''a'', ''c'']) = [1, 3, 5] \<and>
   totalWordCount (counting [''a'', ''a'', ''b'', ''a'', ''c'']) = 5 \<and>
   sorted_wrt (<) [1, 3, 5 :: int] \<and> hd [1, 3, 5 :: int] = 1"
proof -
  have h: "length [''a'', ''a'', ''b'', ''a'', ''c''] < 2 ^ 31" by simp
  from unique_positions_increasing[OF h] h show ?thesis
    by (simp add: counting_def count_step_def init_def find_stem_def subscript_def
        increment_def Let_def wrap32_def)
qed

subsection \<open>The example of three stems\<close>

text \<open>
  C3, as the specification states it, has \<open>uniqueWordCount = [1, 2]\<close> for the stems
  \<open>a a b\<close>. The loop appends \<open>totalWordCount\<close>, which is 3 when \<open>b\<close> is first read,
  so the list is not \<open>[1, 2]\<close>.
\<close>

theorem example_a_a_b_positions_counterexample:
  "uniqueWordCount (counting [''a'', ''a'', ''b'']) \<noteq> [1, 2]"
  by (simp add: counting_aab)

text \<open>
  C3, amended. For the stems \<open>a\<close>, \<open>a\<close>, \<open>b\<close> the counting pass leaves the table
  \<open>{a: 2, b: 1}\<close>, \<open>totalWordCount = 3\<close> and \<open>uniqueWordCount = [1, 3]\<close>; and whatever
  the iteration order of the map and the choices of \<open>std::sort\<close>, the line after the first
  header is the row of \<open>a\<close> with frequency 2, rank 1 and probability \<open>2 / 3\<close>.
\<close>

theorem example_a_a_b:
  assumes "iteration (stemHash (counting [''a'', ''a'', ''b''])) v"
    and "std_sort pairCompare v stemFreq"
  shows "stemHash (counting [''a'', ''a'', ''b'']) = [(''a'', 2), (''b'', 1)] \<and>
         totalWordCount (counting [''a'', ''a'', ''b'']) = 3 \<and>
         uniqueWordCount (counting [''a'', ''a'', ''b'']) = [1, 3] \<and>
         report stemFreq (counting [''a'', ''a'', ''b'']) ! 1 = Ranked ''a'' 2 1 (Quot 2 3)"
proof -
  from assms have "stemFreq = [(''a'', 2), (''b'', 1)]"
    using ranking_aab by (simp add: counting_aab)
  then show ?thesis
    by (simp add: counting_aab report_def ranked_loop_eq)
qed

theorem example_a_a_b_witness:
  "iteration (stemHash (counting [''a'', ''a'', ''b''])) [(''b'', 1), (''a'', 2)] \<and>
   std_sort pairCompare [(''b'', 1), (''a'', 2)] [(''a'', 2), (''b'', 1)] \<and>
   report [(''a'', 2), (''b'', 1)] (counting [''a'', ''a'', ''b'']) ! 1
     = Ranked ''a'' 2 1 (Quot 2 3)"
proof -
  have h1: "iteration (stemHash (counting [''a'', ''a'', ''b''])) [(''b'', 1), (''a'', 2)]"
    by (simp add: counting_aab iteration_def)
  have h2: "std_sort pairCompare [(''b'', 1), (''a'', 2)] [(''a'', 2), (''b'', 1)]"
    by (simp add: std_sort_def pairCompare_def)
  from example_a_a_b[OF h1 h2] h1 h2 show ?thesis by simp
qed

subsection \<open>The ranker\<close>

text \<open>
  C4. For every frequency table, whatever its iteration order, the sorted vector holds the
  entries of the table with frequencies that never increase: at positions \<open>i \<le> j\<close> the
  frequency at \<open>i\<close> is at least the one at \<open>j\<close>. Each ranked row written, at 0-based
  position \<open>i\<close>, is the entry at \<open>i\<close> with rank \<open>i + 1\<close>.
\<close>

theorem ranker_descending_with_ranks:
  assumes "iteration h v" and "std_sort pairCompare v stemFreq"
  shows "mset stemFreq = mset h \<and>
         (\<forall>i j. i \<le> j \<and> j < length stemFreq \<longrightarrow> snd (stemFreq ! j) \<le> snd (stemFreq ! i)) \<and>
         (\<forall>i < length (ranked_loop 0 stemFreq twc).
            ranked_loop 0 stemFreq twc ! i =
              Ranked (fst (stemFreq ! i)) (snd (stemFreq ! i)) (int i + 1)
                (Quot (snd (stemFreq ! i)) twc))"
proof -
  have "mset stemFreq = mset h"
    using assms by (simp add: iteration_def std_sort_def)
  moreover have "\<forall>i j. i \<le> j \<and> j < length stemFreq \<longrightarrow> snd (stemFreq ! j) \<le> snd (stemFreq ! i)"
    using ranking_descending[OF assms(2)] by blast
  moreover have "\<forall>i < length (ranked_loop 0 stemFreq twc).
            ranked_loop 0 stemFreq twc ! i =
              Ranked (fst (stemFreq ! i)) (snd (stemFreq ! i)) (int i + 1)
                (Quot (snd (stemFreq ! i)) twc)"
    by (simp add: ranked_loop_eq)
  ultimately show ?thesis by blast
qed

theorem ranker_descending_with_ranks_witness:
  "iteration [(''x'', 1), (''y'', 4), (''z'', 2)] [(''z'', 2), (''x'', 1), (''y'', 4)] \<and>
   std_sort pairCompare [(''z'', 2), (''x'', 1), (''y'', 4)] [(''y'', 4), (''z'', 2), (''x'', 1)] \<and>
   ranked_loop 0 [(''y'', 4), (''z'', 2), (''x'', 1)] 7 ! 2 = Ranked ''x'' 1 3 (Quot 1 7)"
proof -
  have h1: "iteration [(''x'', 1), (''y'', 4), (''z'', 2)] [(''z'', 2), (''x'', 1), (''y'', 4)]"
    by (simp add: iteration_def)
  have h2: "std_sort pairCompare [(''z'', 2), (''x'', 1), (''y'', 4)]
              [(''y'', 4), (''z'', 2), (''x'', 1)]"
    by (simp add: std_sort_def pairCompare_def)
  have "length (ranked_loop 0 [(''y'', 4), (''z'', 2), (''x'', 1)] 7) = 3"
    by (simp add: length_ranked_loop)
  with ranker_descending_with_ranks[OF h1 h2, of 7] h1 h2 show ?thesis by simp
qed

subsection \<open>The size of the ranked section\<close>

text \<open>
  C5. For every input, the report has \<open>min 50 n\<close> ranked rows, where \<open>n\<close> is the number
  of distinct stems; with 100 distinct stems it has 50.
\<close>

theorem ranked_section_rows:
  assumes "iteration (stemHash (counting stems)) v" and "std_sort pairCompare v stemFreq"
  shows "length (filter is_Ranked (report stemFreq (counting stems))) = min 50 (card (set stems))"
proof -
  have "length stemFreq = card (set stems)"
    using ranking_length[OF assms] by (simp add: length_table)
  then show ?thesis
    by (simp add: ranked_rows_of_report length_ranked_loop min.commute)
qed

theorem ranked_section_rows_witness:
  "iteration (stemHash (counting (map (\<lambda>n. replicate n CHR ''x'') [1 ..< 101])))
             (stemHash (counting (map (\<lambda>n. replicate n CHR ''x'') [1 ..< 101]))) \<and>
   std_sort pairCompare (stemHash (counting (map (\<lambda>n. replicate n CHR ''x'') [1 ..< 101])))
     (rev (sort_key snd (stemHash (counting (map (\<lambda>n. replicate n CHR ''x'') [1 ..< 101]))))) \<and>
   card (set (map (\<lambda>n. replicate n CHR ''x'') [1 ..< 101])) = 100 \<and>
   length (filter is_Ranked
     (report (rev (sort_key snd (stemHash (counting (map (\<lambda>n. replicate n CHR ''x'') [1 ..< 101])))))
        (counting (map (\<lambda>n. replicate n CHR ''x'') [1 ..< 101])))) = 50"
proof -
  let ?S = "map (\<lambda>n. replicate n CHR ''x'') [1 ..< 101]"
  have h: "iteration (stemHash (counting ?S)) (stemHash (counting ?S)) \<and>
           std_sort pairCompare (stemHash (counting ?S))
             (rev (sort_key snd (stemHash (counting ?S))))"
    by (rule ranking_exists)
  have "inj (\<lambda>n. replicate n CHR ''x'')"
    by (rule injI) (metis length_replicate)
  then have "distinct ?S"
    by (simp add: distinct_map inj_on_def)
  then have c: "card (set ?S) = 100"
    by (simp add: distinct_card del: set_map)
  from ranked_section_rows[OF conjunct1[OF h] conjunct2[OF h]] h c
  show ?thesis by simp
qed

subsection \<open>Empty and blank input\<close>

text \<open>
  C6. If the file holds nothing but whitespace (an empty file included), the counting pass
  ends with \<open>totalWordCount = 0\<close>, an empty table and an empty \<open>uniqueWordCount\<close>, and
  the report is the two headers, with the empty line between them, and no data row.
\<close>

theorem blank_input_report:
  assumes "\<forall>c \<in> set contents. isspace c"
    and "iteration (stemHash (counting (tokens contents))) v"
    and "std_sort pairCompare v stemFreq"
  shows "totalWordCount (counting (tokens contents)) = 0 \<and>
         stemHash (counting (tokens contents)) = [] \<and>
         uniqueWordCount (counting (tokens contents)) = [] \<and>
         report stemFreq (counting (tokens contents)) = [Text header1, Text [], Text header2]"
proof -
  have t: "tokens contents = []" using assms(1) by (rule tokens_blank)
  with assms have "stemFreq = []"
    using ranking_empty by (simp add: counting_Nil init_def)
  with t show ?thesis
    by (simp add: counting_Nil init_def report_def ranked_loop_eq unique_loop_eq)
qed

theorem blank_input_report_witness:
  "list_all isspace [CHR '' '', CHR 0x09, CHR 0x0A] \<and>
   iteration (stemHash (counting (tokens [CHR '' '', CHR 0x09, CHR 0x0A]))) [] \<and>
   std_sort pairCompare [] [] \<and>
   report [] (counting (tokens [CHR '' '', CHR 0x09, CHR 0x0A]))
     = [Text header1, Text [], Text header2] \<and>
   iteration (stemHash (counting (tokens []))) [] \<and>
   report [] (counting (tokens [])) = [Text header1, Text [], Text header2]"
proof -
  have h1: "\<forall>c \<in> set [CHR '' '', CHR 0x09, CHR 0x0A]. isspace c"
    by (simp add: isspace_def)
  have t: "tokens [CHR '' '', CHR 0x09, CHR 0x0A] = []"
    using h1 by (rule tokens_blank)
  have h2: "iteration (stemHash (counting (tokens [CHR '' '', CHR 0x09, CHR 0x0A]))) []"
    by (simp add: t counting_Nil init_def iteration_def)
  have h3: "std_sort pairCompare [] []"
    by (simp add: std_sort_def)
  have e1: "\<forall>c \<in> set []. isspace c" by simp
  have e2: "iteration (stemHash (counting (tokens []))) []"
    by (simp add: tokens_blank counting_Nil init_def iteration_def)
  from blank_input_report[OF h1 h2 h3] blank_input_report[OF e1 e2 h3] h1 h2 h3 e2
  show ?thesis by (simp add: isspace_def)
qed

subsection \<open>The divisor of the probability\<close>

text \<open>
  C8. For some input with \<open>totalWordCount = 0\<close> the report divides by zero. After
  \<open>2^32 - 1 = 4294967295\<close> times \<open>a\<close> and one \<open>b\<close> the 32-bit \<open>totalWordCount\<close> has wrapped to 0
  while the table has two entries; whatever the iteration order and the sort, the ranked
  rows are written, each with the quotient of its frequency by \<open>twc = 0\<close>: the loop has
  no guard for it. (On fewer than \<open>2^32\<close> stems, the empty file included, the division
  by zero is not reached: \<open>no_zero_division_below_wrap\<close>.)
\<close>

theorem division_by_zero_reached:
  assumes "iteration (stemHash (counting (replicate 4294967295 ''a'' @ [''b'']))) v"
    and "std_sort pairCompare v stemFreq"
  shows "totalWordCount (counting (replicate 4294967295 ''a'' @ [''b''])) = 0 \<and>
         list_ex zero_division
           (report stemFreq (counting (replicate 4294967295 ''a'' @ [''b''])))"
proof -
  have "length stemFreq = length (stemHash (counting (replicate 4294967295 ''a'' @ [''b''])))"
    using assms by (rule ranking_length)
  then have "stemFreq \<noteq> []"
    by (auto simp: counting_many_a_b)
  then show ?thesis
    by (simp add: zero_division_report counting_many_a_b)
qed

theorem division_by_zero_reached_witness:
  "iteration (stemHash (counting (replicate 4294967295 ''a'' @ [''b''])))
     [(''a'', - 1), (''b'', 1)] \<and>
   std_sort pairCompare [(''a'', - 1), (''b'', 1)] [(''b'', 1), (''a'', - 1)] \<and>
   totalWordCount (counting (replicate 4294967295 ''a'' @ [''b''])) = 0 \<and>
   report [(''b'', 1), (''a'', - 1)] (counting (replicate 4294967295 ''a'' @ [''b'']))
     = [Text header1, Ranked ''b'' 1 1 (Quot 1 0), Ranked ''a'' (- 1) 2 (Quot (- 1) 0),
        Text [], Text header2, Unique 1 1, Unique 0 2] \<and>
   list_ex zero_division
     (report [(''b'', 1), (''a'', - 1)] (counting (replicate 4294967295 ''a'' @ [''b''])))"
proof -
  have h1: "iteration (stemHash (counting (replicate 4294967295 ''a'' @ [''b''])))
              [(''a'', - 1), (''b'', 1)]"
    by (simp add: counting_many_a_b iteration_def)
  have h2: "std_sort pairCompare [(''a'', - 1), (''b'', 1)] [(''b'', 1), (''a'', - 1)]"
    by (simp add: std_sort_def pairCompare_def)
  from division_by_zero_reached[OF h1 h2] h1 h2 show ?thesis
    by (simp add: counting_many_a_b report_def ranked_loop_eq unique_loop_eq)
qed

subsection \<open>The output file name\<close>

text \<open>
  C7. For every file name of at least 4 characters (and of a length a \<open>size_t\<close> holds),
  the output path is the name without its last 4 characters, whatever they are, followed
  by \<open>_Output.csv\<close>; so \<open>notes.txt\<close> gives \<open>notes_Output.csv\<close> and \<open>a.txt\<close> gives
  \<open>a_Output.csv\<close>.
\<close>

theorem output_name_strips_four:
  assumes "4 \<le> length fileName" and "length fileName < 2 ^ 64"
  shows "fileOutput fileName = take (length fileName - 4) fileName @ ''_Output.csv''"
  using assms by (rule fileOutput_long)

theorem output_name_strips_four_witness:
  "4 \<le> length ''notes.txt'' \<and> length ''notes.txt'' < 2 ^ 64 \<and>
   fileOutput ''notes.txt'' = ''notes_Output.csv'' \<and>
   4 \<le> length ''a.txt'' \<and> length ''a.txt'' < 2 ^ 64 \<and>
   fileOutput ''a.txt'' = ''a_Output.csv'' \<and>
   fileOutput ''data.jpeg'' = ''data._Output.csv''"
proof -
  have a: "4 \<le> length ''notes.txt''" "4 \<le> length ''a.txt''" "4 \<le> length ''data.jpeg''"
    by simp_all
  have b: "length ''notes.txt'' < 2 ^ 64" "length ''a.txt'' < 2 ^ 64"
    "length ''data.jpeg'' < 2 ^ 64"
    by simp_all
  from output_name_strips_four[OF a(1) b(1)] output_name_strips_four[OF a(2) b(2)]
    output_name_strips_four[OF a(3) b(3)]
  show ?thesis by simp
qed

subsection \<open>The driver\<close>



end
